theory Spec2Isabelle
  imports Complex_Main "HOL-Library.Word" "HOL-Library.Log_Nat"
begin

section \<open>The bit-counting utility (bcount.py)\<close>

text \<open>
  A Python \<open>str\<close> is a sequence of Unicode code points; \<open>ord\<close> of a character is that
  code point, so a string is modelled as a list of natural numbers.
\<close>

type_synonym pystr = "nat list"

text \<open>
  \<open>bin(n)\<close> for a non-negative \<open>n\<close> is the prefix \<open>0b\<close> followed by the binary digits of
  \<open>n\<close>, most significant first; \<open>bin(0)\<close> is \<open>0b0\<close>.
\<close>

fun bin_digits :: "nat \<Rightarrow> string" where
  "bin_digits n =
     (if n < 2 then [if n = 0 then CHR ''0'' else CHR ''1'']
      else bin_digits (n div 2) @ [if n mod 2 = 0 then CHR ''0'' else CHR ''1''])"

declare bin_digits.simps [simp del]

definition py_bin :: "nat \<Rightarrow> string" where
  "py_bin n = ''0b'' @ bin_digits n"

text \<open>The slice \<open>bin(ord(char))[2:]\<close> of line 9.\<close>

definition binary_rep :: "nat \<Rightarrow> string" where
  "binary_rep char = drop 2 (py_bin char)"

text \<open>
  The loop of \<open>count_bits_in_paragraph\<close>: the three counters are threaded through the
  characters of the paragraph, in order.
\<close>

fun count_bits_loop :: "pystr \<Rightarrow> int \<times> int \<times> int \<Rightarrow> int \<times> int \<times> int" where
  "count_bits_loop [] acc = acc"
| "count_bits_loop (char # rest) (ones_count, zeros_count, count) =
     count_bits_loop rest
       (ones_count + int (count_list (binary_rep char) CHR ''1''),
        zeros_count + int (count_list (binary_rep char) CHR ''0''),
        count + 1)"

definition count_bits_in_paragraph :: "pystr \<Rightarrow> int \<times> int \<times> int" where
  "count_bits_in_paragraph paragraph = count_bits_loop paragraph (0, 0, 0)"

text \<open>What one character adds to the first two counters.\<close>

definition ones_in :: "nat \<Rightarrow> nat" where
  "ones_in char = count_list (binary_rep char) CHR ''1''"

definition zeros_in :: "nat \<Rightarrow> nat" where
  "zeros_in char = count_list (binary_rep char) CHR ''0''"

text \<open>
  The number of digits of the binary numeral of a code point, written without leading
  zeros: Python's \<open>int.bit_length\<close> (\<open>floorlog 2\<close>) for a positive number, and one digit
  for zero, whose numeral is \<open>0\<close>.
\<close>

definition binary_length :: "nat \<Rightarrow> nat" where
  "binary_length c = (if c = 0 then 1 else floorlog 2 c)"

section \<open>The transfer session (send.py): data and the serial channel\<close>

type_synonym byte = "8 word"
type_synonym bytes = "byte list"

text \<open>
  The exceptions that can leave a function of the script: a transport error of a channel
  write, a character with no UTF-8 encoding, a failing strict decode, and a division by
  zero.
\<close>

datatype error = SerialException | UnicodeEncodeError | UnicodeDecodeError | ZeroDivisionError

text \<open>The lines the script prints, in the order of the \<open>print\<close> calls of the source.\<close>

datatype line =
    Sending_banner
  | Diagnostic pystr
  | Error_decoding_response
  | All_sent_banner
  | Waiting_banner
  | SpeedRx real
  | Decoded_text pystr
  | Error_decoding_received

text \<open>
  What the script cannot control is given by three oracles, fixed for a run:
  \<open>clock k\<close> is the value of the \<open>k\<close>-th call of \<open>time.time()\<close>; \<open>arrive k\<close> is the
  block of bytes that the device has delivered into the input buffer when the channel is
  queried for the \<open>k\<close>-th time; \<open>write_ok k\<close> tells whether the \<open>k\<close>-th write call succeeds.
  Clock readings are taken as real numbers.
\<close>

record env =
  clock :: "nat \<Rightarrow> real"
  arrive :: "nat \<Rightarrow> bytes"
  write_ok :: "nat \<Rightarrow> bool"

text \<open>
  The global state the script works on: the serial connection \<open>ser\<close> (open or closed, its
  input buffer, the log of the data of its write calls and of the results of its read
  calls), how often the oracles have been consulted, the number of \<open>time.sleep(1)\<close> calls,
  and the printed output.
\<close>

record world =
  is_open :: bool
  rx_buf :: bytes
  rx_log :: "bytes list"
  tx_log :: "bytes list"
  polls :: nat
  ticks :: nat
  sleeps :: nat
  out :: "line list"

text \<open>\<open>ser = serial.Serial(SERIAL_PORT, BAUD_RATE, timeout=TIMEOUT)\<close> at module level.\<close>

definition world_open :: world where
  "world_open = \<lparr>is_open = True, rx_buf = [], rx_log = [], tx_log = [], polls = 0,
     ticks = 0, sleeps = 0, out = []\<rparr>"

definition print :: "line \<Rightarrow> world \<Rightarrow> world" where
  "print l w = w\<lparr>out := out w @ [l]\<rparr>"

definition time_now :: "env \<Rightarrow> world \<Rightarrow> real \<times> world" where
  "time_now e w = (clock e (ticks w), w\<lparr>ticks := Suc (ticks w)\<rparr>)"

definition time_sleep :: "world \<Rightarrow> world" where
  "time_sleep w = w\<lparr>sleeps := Suc (sleeps w)\<rparr>"

text \<open>
  \<open>ser.write(data)\<close> hands all of \<open>data\<close> to the transport or raises; the number it returns
  is not used by the script.
\<close>

definition ser_write :: "env \<Rightarrow> bytes \<Rightarrow> world \<Rightarrow> (error \<times> world) + world" where
  "ser_write e data w =
     (if write_ok e (length (tx_log w)) then Inr (w\<lparr>tx_log := tx_log w @ [data]\<rparr>)
      else Inl (SerialException, w))"

text \<open>\<open>ser.in_waiting\<close>: the number of bytes buffered for reading, after the next arrivals.\<close>

definition ser_in_waiting :: "env \<Rightarrow> world \<Rightarrow> nat \<times> world" where
  "ser_in_waiting e w =
     (let buf = rx_buf w @ arrive e (polls w)
      in (length buf, w\<lparr>rx_buf := buf, polls := Suc (polls w)\<rparr>))"

text \<open>\<open>ser.read(1)\<close>: the first buffered byte, or nothing when the buffer is empty.\<close>

definition ser_read1 :: "world \<Rightarrow> bytes \<times> world" where
  "ser_read1 w =
     (take 1 (rx_buf w), w\<lparr>rx_buf := drop 1 (rx_buf w), rx_log := rx_log w @ [take 1 (rx_buf w)]\<rparr>)"

text \<open>
  \<open>ser.readline()\<close>: the buffered bytes up to and including the first line feed. With no
  line feed buffered the call waits, takes the next arrivals as well, and returns up to
  the line feed, or everything when the read timeout ends the wait.
\<close>

definition LF :: byte where
  "LF = 0x0A"

definition ser_readline :: "env \<Rightarrow> world \<Rightarrow> bytes \<times> world" where
  "ser_readline e w =
     (let waits = (LF \<notin> set (rx_buf w));
          buf = (if waits then rx_buf w @ arrive e (polls w) else rx_buf w);
          got = takeWhile (\<lambda>b. b \<noteq> LF) buf @ take 1 (dropWhile (\<lambda>b. b \<noteq> LF) buf)
      in (got, w\<lparr>rx_buf := drop (length got) buf, rx_log := rx_log w @ [got],
                 polls := (if waits then Suc (polls w) else polls w)\<rparr>))"

definition ser_close :: "world \<Rightarrow> world" where
  "ser_close w = w\<lparr>is_open := False\<rparr>"

section \<open>UTF-8 encoding and decoding, and \<open>str.strip\<close>\<close>

text \<open>
  \<open>char.encode('utf-8')\<close> for one character: one to four bytes; a surrogate code point has
  no encoding and raises. A number from \<open>0x110000\<close> on is no character of a \<open>str\<close>.
\<close>

definition utf8_encode_char :: "nat \<Rightarrow> error + bytes" where
  "utf8_encode_char c =
     (if c < 0x80 then Inr [of_nat c]
      else if c < 0x800 then Inr [of_nat (0xC0 + c div 64), of_nat (0x80 + c mod 64)]
      else if 0xD800 \<le> c \<and> c \<le> 0xDFFF then Inl UnicodeEncodeError
      else if c < 0x10000 then
        Inr [of_nat (0xE0 + c div 4096), of_nat (0x80 + c div 64 mod 64), of_nat (0x80 + c mod 64)]
      else if c < 0x110000 then
        Inr [of_nat (0xF0 + c div 262144), of_nat (0x80 + c div 4096 mod 64),
             of_nat (0x80 + c div 64 mod 64), of_nat (0x80 + c mod 64)]
      else Inl UnicodeEncodeError)"


text \<open>
  The UTF-8 decoder of \<open>bytes.decode\<close>. One step looks at the lead byte \<open>b\<close> and the bytes
  \<open>bs\<close> after it and either yields a character with the number of bytes it took, or
  reports an invalid range by its length: an invalid start byte (one byte), an invalid
  continuation byte (the bytes before it), or an unexpected end of the data (all bytes
  left).
\<close>

datatype utf8_result = Decoded_char nat nat | Invalid_seq nat

definition is_cont :: "byte \<Rightarrow> bool" where
  "is_cont b = (0x80 \<le> b \<and> b < 0xC0)"

definition second_ok3 :: "byte \<Rightarrow> byte \<Rightarrow> bool" where
  "second_ok3 b b2 =
     (is_cont b2 \<and> \<not> (if b2 < 0xA0 then b = 0xE0 else b = 0xED))"

definition second_ok4 :: "byte \<Rightarrow> byte \<Rightarrow> bool" where
  "second_ok4 b b2 =
     (is_cont b2 \<and> \<not> (if b2 < 0x90 then b = 0xF0 else b = 0xF4))"

definition utf8_decode_one :: "byte \<Rightarrow> bytes \<Rightarrow> utf8_result" where
  "utf8_decode_one b bs =
     (if b < 0x80 then Decoded_char (unat b) 1
      else if b < 0xC2 then Invalid_seq 1
      else if b < 0xE0 then
        (case bs of
           [] \<Rightarrow> Invalid_seq 1
         | b2 # _ \<Rightarrow>
             if is_cont b2 then Decoded_char (unat b mod 32 * 64 + unat b2 mod 64) 2
             else Invalid_seq 1)
      else if b < 0xF0 then
        (case bs of
           [] \<Rightarrow> Invalid_seq 1
         | b2 # r \<Rightarrow>
             if \<not> second_ok3 b b2 then Invalid_seq 1
             else (case r of
                     [] \<Rightarrow> Invalid_seq 2
                   | b3 # _ \<Rightarrow>
                       if is_cont b3 then
                         Decoded_char (unat b mod 16 * 4096 + unat b2 mod 64 * 64 + unat b3 mod 64) 3
                       else Invalid_seq 2))
      else if b < 0xF5 then
        (case bs of
           [] \<Rightarrow> Invalid_seq 1
         | b2 # r \<Rightarrow>
             if \<not> second_ok4 b b2 then Invalid_seq 1
             else (case r of
                     [] \<Rightarrow> Invalid_seq 2
                   | b3 # r' \<Rightarrow>
                       if \<not> is_cont b3 then Invalid_seq 2
                       else (case r' of
                               [] \<Rightarrow> Invalid_seq 3
                             | b4 # _ \<Rightarrow>
                                 if is_cont b4 then
                                   Decoded_char (unat b mod 8 * 262144 + unat b2 mod 64 * 4096
                                     + unat b3 mod 64 * 64 + unat b4 mod 64) 4
                                 else Invalid_seq 3)))
      else Invalid_seq 1)"

text \<open>
  The error handler named by the \<open>errors\<close> argument: \<open>strict\<close> raises at the first invalid
  range, \<open>ignore\<close> skips the range and goes on. The script always passes \<open>ignore\<close>.
\<close>

datatype errors = Strict | Ignore

fun bytes_decode :: "errors \<Rightarrow> bytes \<Rightarrow> error + pystr" where
  "bytes_decode h [] = Inr []"
| "bytes_decode h (b # bs) =
     (case utf8_decode_one b bs of
        Decoded_char c n \<Rightarrow>
          (case bytes_decode h (drop (n - 1) bs) of
             Inl err \<Rightarrow> Inl err
           | Inr s \<Rightarrow> Inr (c # s))
      | Invalid_seq n \<Rightarrow>
          (case h of
             Strict \<Rightarrow> Inl UnicodeDecodeError
           | Ignore \<Rightarrow> bytes_decode h (drop (n - 1) bs)))"

text \<open>\<open>str.strip()\<close> removes the white space characters at both ends.\<close>

definition py_isspace :: "nat \<Rightarrow> bool" where
  "py_isspace c =
     ((9 \<le> c \<and> c \<le> 13) \<or> (28 \<le> c \<and> c \<le> 32) \<or> c = 133 \<or> c = 160 \<or> c = 5760
      \<or> (8192 \<le> c \<and> c \<le> 8202) \<or> c = 8232 \<or> c = 8233 \<or> c = 8239 \<or> c = 8287
      \<or> c = 12288)"

definition str_strip :: "pystr \<Rightarrow> pystr" where
  "str_strip s = rev (dropWhile py_isspace (rev (dropWhile py_isspace s)))"

section \<open>The Transmitter: \<open>send_data\<close>\<close>

text \<open>
  Lines 27 to 33: the response of the device is read as one line, decoded with
  \<open>errors='ignore'\<close>, stripped, and printed unless empty. The handler of
  \<open>UnicodeDecodeError\<close> prints its message and lets the loop go on.
\<close>

definition drain_response :: "env \<Rightarrow> world \<Rightarrow> world" where
  "drain_response e w =
     (let (raw, w1) = ser_readline e w
      in case bytes_decode Ignore raw of
           Inr text \<Rightarrow>
             (let speed_data = str_strip text
              in if speed_data \<noteq> [] then print (Diagnostic speed_data) w1 else w1)
         | Inl err \<Rightarrow> print Error_decoding_response w1)"

text \<open>
  The \<open>for\<close> loop over \<open>enumerate(DATA_TO_SEND)\<close>: \<open>n\<close> is \<open>len(DATA_TO_SEND)\<close>, \<open>count\<close> the
  index of the character at the head of the list. An exception of the encoding or of
  the write leaves the loop with the world as it is at that point.
\<close>

fun send_loop ::
  "env \<Rightarrow> int \<Rightarrow> int \<Rightarrow> pystr \<Rightarrow> pystr \<times> int \<times> world \<Rightarrow> (error \<times> world) + (pystr \<times> int \<times> world)"
where
  "send_loop e n count [] st = Inr st"
| "send_loop e n count (char # rest) (chara, sent_bytes, w) =
     (case utf8_encode_char char of
        Inl err \<Rightarrow> Inl (err, w)
      | Inr data \<Rightarrow>
          (case ser_write e data w of
             Inl x \<Rightarrow> Inl x
           | Inr w1 \<Rightarrow>
               (let w2 = (if count = n - 1 then time_sleep w1 else w1);
                    (k, w3) = ser_in_waiting e w2;
                    w4 = (if k > 0 then drain_response e w3 else w3)
                in send_loop e n (count + 1) rest (chara @ [char], sent_bytes + 1, w4))))"

text \<open>\<open>send_data\<close>, with the payload \<open>DATA_TO_SEND\<close> of the module as its argument.\<close>

definition send_data :: "env \<Rightarrow> pystr \<Rightarrow> world \<Rightarrow> (error \<times> world) + (int \<times> world)" where
  "send_data e DATA_TO_SEND w =
     (case send_loop e (int (length DATA_TO_SEND)) 0 DATA_TO_SEND
             ([], 0, print Sending_banner w) of
        Inl x \<Rightarrow> Inl x
      | Inr (chara, sent_bytes, w1) \<Rightarrow> Inr (sent_bytes, print All_sent_banner w1))"

section \<open>The Receiver: \<open>receive_data\<close>\<close>

record rstate =
  received_data :: bytes
  total_received_bytes :: int
  start_receive_time :: real
  last_activity_time :: real
  last_report_time :: real
  no_data :: bool

definition TIMEOUT_THRESHOLD :: real where
  "TIMEOUT_THRESHOLD = 3"

text \<open>Lines 38 to 45: the local variables, three clock readings, and the banner.\<close>

definition receive_init :: "env \<Rightarrow> world \<Rightarrow> rstate \<times> world" where
  "receive_init e w =
     (let (t1, w1) = time_now e w;
          (t2, w2) = time_now e w1;
          (t3, w3) = time_now e w2
      in (\<lparr>received_data = [], total_received_bytes = 0, start_receive_time = t1,
           last_activity_time = t2, last_report_time = t3, no_data = True\<rparr>,
          print Waiting_banner w3))"

text \<open>Lines 47 to 53: poll the channel and read one byte if one is there.\<close>

definition receive_poll :: "env \<Rightarrow> rstate \<times> world \<Rightarrow> rstate \<times> world" where
  "receive_poll e s =
     (let (r, w) = s;
          (k, w1) = ser_in_waiting e w
      in if k > 0 then
           (let (received_char, w2) = ser_read1 w1
            in if received_char \<noteq> [] then
                 (let (t, w3) = time_now e w2
                  in (r\<lparr>received_data := received_data r @ received_char,
                        no_data := False,
                        total_received_bytes := total_received_bytes r + 1,
                        last_activity_time := t\<rparr>, w3))
               else (r, w2))
         else (r, w1))"

text \<open>Python's true division raises on a zero divisor.\<close>

definition py_truediv :: "real \<Rightarrow> real \<Rightarrow> error + real" where
  "py_truediv a b = (if b = 0 then Inl ZeroDivisionError else Inr (a / b))"

text \<open>Lines 59 to 61: the guarded computation and report of the speed.\<close>

definition report_speed :: "int \<Rightarrow> real \<Rightarrow> world \<Rightarrow> (error \<times> world) + world" where
  "report_speed nbytes elapsed_time w =
     (if elapsed_time > 0 then
        (case py_truediv (real_of_int (nbytes * 8)) elapsed_time of
           Inl err \<Rightarrow> Inl (err, w)
         | Inr speed_bps \<Rightarrow> Inr (print (SpeedRx speed_bps) w))
      else Inr w)"

text \<open>Lines 57 to 64: the report that is due once a second, and the reset after it.\<close>

definition receive_report :: "env \<Rightarrow> rstate \<times> world \<Rightarrow> (error \<times> world) + (rstate \<times> world)" where
  "receive_report e s =
     (let (r, w) = s;
          (t, w1) = time_now e w
      in if t - last_report_time r \<ge> 1 then
           (let (t', w2) = time_now e w1;
                elapsed_time = t' - start_receive_time r
            in case report_speed (total_received_bytes r) elapsed_time w2 of
                 Inl x \<Rightarrow> Inl x
               | Inr w3 \<Rightarrow>
                   (let (t4, w4) = time_now e w3;
                        (t5, w5) = time_now e w4
                    in Inr (r\<lparr>total_received_bytes := 0, start_receive_time := t4,
                              last_report_time := t5\<rparr>, w5)))
         else Inr (r, w1))"

text \<open>
  One iteration of \<open>while True\<close>: the poll, the exit test of line 54 (the clock is read
  before the flag is looked at), and the report.
\<close>

datatype 'a step = Continue 'a | Break 'a

definition receive_iter ::
  "env \<Rightarrow> rstate \<times> world \<Rightarrow> (error \<times> world) + (rstate \<times> world) step" where
  "receive_iter e s =
     (let (r1, w1) = receive_poll e s;
          (t, w2) = time_now e w1
      in if t - last_activity_time r1 > TIMEOUT_THRESHOLD \<and> no_data r1 = False
         then Inr (Break (r1, w2))
         else (case receive_report e (r1, w2) of
                 Inl x \<Rightarrow> Inl x
               | Inr s' \<Rightarrow> Inr (Continue s')))"

text \<open>
  The loop has no bound of its own, so it is run with fuel: \<open>None\<close> says that it is still
  running after \<open>fuel\<close> iterations.
\<close>

fun receive_loop ::
  "env \<Rightarrow> nat \<Rightarrow> rstate \<times> world \<Rightarrow> ((error \<times> world) + (rstate \<times> world)) option" where
  "receive_loop e 0 s = None"
| "receive_loop e (Suc fuel) s =
     (case receive_iter e s of
        Inl x \<Rightarrow> Some (Inl x)
      | Inr (Break s') \<Rightarrow> Some (Inr s')
      | Inr (Continue s') \<Rightarrow> receive_loop e fuel s')"

text \<open>Lines 66 to 70: the final decode inside \<open>try\<close>, and the handler of any exception.\<close>

definition receive_finish :: "rstate \<times> world \<Rightarrow> world" where
  "receive_finish s =
     (let (r, w) = s
      in case bytes_decode Ignore (received_data r) of
           Inr decoded_data \<Rightarrow> print (Decoded_text decoded_data) w
         | Inl err \<Rightarrow> print Error_decoding_received w)"

definition receive_data :: "env \<Rightarrow> nat \<Rightarrow> world \<Rightarrow> ((error \<times> world) + world) option" where
  "receive_data e fuel w =
     (case receive_loop e fuel (receive_init e w) of
        None \<Rightarrow> None
      | Some (Inl x) \<Rightarrow> Some (Inl x)
      | Some (Inr s) \<Rightarrow> Some (Inr (receive_finish s)))"

section \<open>The session: the main block\<close>

text \<open>
  \<open>send_data(); receive_data(); ser.close()\<close>. An exception of a call ends the block at
  that call.
\<close>

definition main :: "env \<Rightarrow> pystr \<Rightarrow> nat \<Rightarrow> world \<Rightarrow> ((error \<times> world) + world) option" where
  "main e DATA_TO_SEND fuel w =
     (case send_data e DATA_TO_SEND w of
        Inl x \<Rightarrow> Some (Inl x)
      | Inr (sent, w1) \<Rightarrow>
          (case receive_data e fuel w1 of
             None \<Rightarrow> None
           | Some (Inl x) \<Rightarrow> Some (Inl x)
           | Some (Inr w2) \<Rightarrow> Some (Inr (ser_close w2))))"

section \<open>Notions used in the statements, and concrete scenarios\<close>


text \<open>
  A device that answers \<open>OK\<close> and a line feed at the first query of the channel and is
  silent afterwards; every write succeeds and the clock advances by half a unit per
  reading.
\<close>

definition env_echo :: env where
  "env_echo = \<lparr>clock = (\<lambda>k. real k / 2),
      arrive = (\<lambda>k. if k = 0 then [0x4F, 0x4B, 0x0A] else []),
      write_ok = (\<lambda>k. True)\<rparr>"

text \<open>A device that never delivers a byte; the clock advances by one unit per reading.\<close>

definition env_silent :: env where
  "env_silent = \<lparr>clock = (\<lambda>k. real k), arrive = (\<lambda>k. []), write_ok = (\<lambda>k. True)\<rparr>"

text \<open>
  The state in which an iteration of the Receiver's loop leaves the variables and the
  world, whether it goes on or breaks, and the state after \<open>k\<close> iterations.
\<close>

definition after_iter :: "env \<Rightarrow> rstate \<times> world \<Rightarrow> rstate \<times> world" where
  "after_iter e s =
     (case receive_iter e s of
        Inr (Continue s') \<Rightarrow> s'
      | Inr (Break s') \<Rightarrow> s'
      | Inl x \<Rightarrow> s)"

fun nth_state :: "env \<Rightarrow> nat \<Rightarrow> rstate \<times> world \<Rightarrow> rstate \<times> world" where
  "nth_state e 0 s = s"
| "nth_state e (Suc k) s = nth_state e k (after_iter e s)"

text \<open>
  At the exit test of the iteration that starts in \<open>s\<close>: whether a byte has been received
  so far, and the time since the last recorded inbound activity, that is the clock
  reading of the test minus \<open>last_activity_time\<close>.
\<close>

definition has_data :: "env \<Rightarrow> rstate \<times> world \<Rightarrow> bool" where
  "has_data e s = (\<not> no_data (fst (receive_poll e s)))"

definition inactivity :: "env \<Rightarrow> rstate \<times> world \<Rightarrow> real" where
  "inactivity e s =
     clock e (ticks (snd (receive_poll e s))) - last_activity_time (fst (receive_poll e s))"

definition timed_out :: "env \<Rightarrow> rstate \<times> world \<Rightarrow> bool" where
  "timed_out e s = (has_data e s \<and> inactivity e s > 3)"


text \<open>The lines that only the Receiver prints.\<close>

fun receiver_line :: "line \<Rightarrow> bool" where
  "receiver_line Waiting_banner = True"
| "receiver_line (SpeedRx v) = True"
| "receiver_line (Decoded_text s) = True"
| "receiver_line Error_decoding_received = True"
| "receiver_line l = False"

text \<open>
  A device that delivers one byte at the first query, when the clock shows 0, and nothing
  afterwards; the clock shows 0 for its first six readings, 3 at the seventh, and 4 from
  then on.
\<close>

definition env_burst :: env where
  "env_burst = \<lparr>clock = (\<lambda>k. if k < 6 then 0 else if k = 6 then 3 else 4),
      arrive = (\<lambda>k. if k = 0 then [0x41] else []),
      write_ok = (\<lambda>k. True)\<rparr>"

text \<open>A channel whose first write succeeds and whose later writes fail.\<close>

definition env_write_fails :: env where
  "env_write_fails = \<lparr>clock = (\<lambda>k. real k), arrive = (\<lambda>k. []), write_ok = (\<lambda>k. k < 1)\<rparr>"



text \<open>
  All bytes the device has delivered to the channel so far, in the order of their
  arrival: those already handed out by read calls, followed by those still buffered. And
  the bytes that arrive at the queries \<open>i\<close> up to \<open>j - 1\<close> of the channel.
\<close>

definition delivered :: "world \<Rightarrow> bytes" where
  "delivered w = concat (rx_log w) @ rx_buf w"

definition arrivals :: "env \<Rightarrow> nat \<Rightarrow> nat \<Rightarrow> bytes" where
  "arrivals e i j = concat (map (arrive e) [i..<j])"

text \<open>
  A device that answers \<open>OK\<close> and a line feed at the first query of the channel, sends one
  more byte at the third query, and is silent otherwise.
\<close>

definition env_duplex :: env where
  "env_duplex = \<lparr>clock = (\<lambda>k. real k / 2),
      arrive = (\<lambda>k. if k = 0 then [0x4F, 0x4B, 0x0A] else if k = 2 then [0x41] else []),
      write_ok = (\<lambda>k. True)\<rparr>"

text \<open>The channel as a queue: what one operation does to the delivered bytes.\<close>

definition fifo :: "env \<Rightarrow> world \<Rightarrow> world \<Rightarrow> bool" where
  "fifo e w w' \<longleftrightarrow>
     polls w \<le> polls w'
     \<and> delivered w' = delivered w @ arrivals e (polls w) (polls w')
     \<and> (\<exists>reads. rx_log w' = rx_log w @ reads)"

section \<open>Properties of the bit-counting utility\<close>

lemma binary_rep_digits: "binary_rep c = bin_digits c"
  by (simp add: binary_rep_def py_bin_def)

lemma count_bits_loop_sums:
  "count_bits_loop s (a, b, k) =
     (a + (\<Sum>c\<leftarrow>s. int (ones_in c)), b + (\<Sum>c\<leftarrow>s. int (zeros_in c)), k + int (length s))"
  by (induction s arbitrary: a b k) (simp_all add: ones_in_def zeros_in_def)

lemma bits_of_nat_split:
  "{i. bit (n::nat) i} = (if odd n then {0} else {}) \<union> Suc ` {i. bit (n div 2) i}"
proof (rule set_eqI)
  fix i
  show "i \<in> {i. bit n i} \<longleftrightarrow> i \<in> (if odd n then {0} else {}) \<union> Suc ` {i. bit (n div 2) i}"
    by (cases i) (auto simp: bit_0 bit_Suc)
qed

lemma bits_of_zero: "{i. bit (0::nat) i} = {}"
  by auto

lemma finite_bits_of_nat: "finite {i. bit (n::nat) i}"
proof (induction n rule: less_induct)
  case (less n)
  show ?case
  proof (cases "n = 0")
    case True
    then show ?thesis by (simp only: bits_of_zero finite.emptyI)
  next
    case False
    then have "finite {i. bit (n div 2) i}" by (intro less) simp
    then have "finite ((if odd n then {0} else {}) \<union> Suc ` {i. bit (n div 2) i})"
      by simp
    then show ?thesis by (simp only: bits_of_nat_split [of n])
  qed
qed

lemma card_bits_of_nat:
  "card {i. bit (n::nat) i} = (if odd n then 1 else 0) + card {i. bit (n div 2) i}"
proof -
  have fin: "finite (Suc ` {i. bit (n div 2) i})"
    by (rule finite_imageI) (rule finite_bits_of_nat)
  have disj: "(if odd n then {0} else {}) \<inter> Suc ` {i. bit (n div 2) i} = {}"
    by auto
  have "card {i. bit n i} =
      card (if odd n then {0::nat} else {}) + card (Suc ` {i. bit (n div 2) i})"
    by (subst bits_of_nat_split, subst card_Un_disjoint) (use fin disj in auto)
  also have "card (Suc ` {i. bit (n div 2) i}) = card {i. bit (n div 2) i}"
    by (rule card_image) simp
  finally show ?thesis by simp
qed

lemma card_bits_zero: "card {i. bit (0::nat) i} = 0"
  by (simp only: bits_of_zero card.empty)

lemma card_bits_one: "card {i. bit (Suc 0) i} = 1"
  using card_bits_of_nat [of "Suc 0"] by (simp add: card_bits_zero)

lemma count_ones_bin_digits: "count_list (bin_digits n) CHR ''1'' = card {i. bit n i}"
proof (induction n rule: bin_digits.induct)
  case (1 n)
  show ?case
  proof (cases "n < 2")
    case True
    then have "n = 0 \<or> n = Suc 0" by arith
    then show ?thesis
    proof
      assume "n = 0"
      then show ?thesis
        by (subst bin_digits.simps) (simp add: card_bits_zero del: bit_0_eq)
    next
      assume "n = Suc 0"
      then show ?thesis
        by (subst bin_digits.simps) (simp add: card_bits_one)
    qed
  next
    case False
    with "1" have ih: "count_list (bin_digits (n div 2)) CHR ''1'' = card {i. bit (n div 2) i}"
      by simp
    have unfold: "bin_digits n =
        bin_digits (n div 2) @ [if n mod 2 = 0 then CHR ''0'' else CHR ''1'']"
      using False by (subst bin_digits.simps) simp
    show ?thesis
      unfolding unfold card_bits_of_nat [of n]
      by (simp add: ih odd_iff_mod_2_eq_one)
  qed
qed

lemma floorlog_two_step: "0 < n \<Longrightarrow> floorlog 2 n = floorlog 2 (n div 2) + 1"
  by (subst compute_floorlog) simp

lemma floorlog_two_zero: "floorlog 2 0 = 0"
  by (simp add: floorlog_def)

lemma length_bin_digits: "length (bin_digits n) = binary_length n"
proof (induction n rule: bin_digits.induct)
  case (1 n)
  show ?case
  proof (cases "n < 2")
    case True
    then have "n = 0 \<or> n = Suc 0" by arith
    then show ?thesis
    proof
      assume "n = 0"
      then show ?thesis
        by (subst bin_digits.simps) (simp add: binary_length_def)
    next
      assume n: "n = Suc 0"
      have "floorlog 2 (Suc 0) = 1"
        using floorlog_two_step [of "Suc 0"] by (simp add: floorlog_two_zero)
      with n show ?thesis
        by (subst bin_digits.simps) (simp add: binary_length_def)
    qed
  next
    case False
    with "1" have ih: "length (bin_digits (n div 2)) = binary_length (n div 2)"
      by simp
    from False have nz: "n div 2 \<noteq> 0" "n \<noteq> 0" "0 < n" by arith+
    have unfold: "bin_digits n =
        bin_digits (n div 2) @ [if n mod 2 = 0 then CHR ''0'' else CHR ''1'']"
      using False by (subst bin_digits.simps) simp
    show ?thesis
      unfolding unfold
      using nz by (simp add: ih binary_length_def floorlog_two_step [of n])
  qed
qed

lemma bin_digits_charset: "set (bin_digits n) \<subseteq> {CHR ''0'', CHR ''1''}"
proof (induction n rule: bin_digits.induct)
  case (1 n)
  show ?case
  proof (cases "n < 2")
    case True
    then show ?thesis by (subst bin_digits.simps) auto
  next
    case False
    with "1" have "set (bin_digits (n div 2)) \<subseteq> {CHR ''0'', CHR ''1''}" by simp
    with False show ?thesis by (subst bin_digits.simps) auto
  qed
qed

lemma count_two_symbols:
  "set xs \<subseteq> {a, b} \<Longrightarrow> a \<noteq> b \<Longrightarrow> count_list xs a + count_list xs b = length xs"
  by (induction xs) auto

lemma ones_in_popcount: "ones_in c = card {i. bit c i}"
  by (simp add: ones_in_def binary_rep_digits count_ones_bin_digits)

lemma ones_zeros_in_length: "ones_in c + zeros_in c = binary_length c"
  using count_two_symbols [OF bin_digits_charset, of c]
  by (simp add: ones_in_def zeros_in_def binary_rep_digits length_bin_digits)

text \<open>
  C10. For every string \<open>s\<close>, \<open>count_bits_in_paragraph s\<close> is the triple of the summed
  per-character counts of the digit 1, the summed per-character counts of the digit 0,
  and the number of characters of \<open>s\<close>. The ones of a character are the 1-bits of its code
  point, and its ones and zeros together are the digits of the binary numeral of the code
  point without leading zeros (its bit length; one digit for code point 0), not the eight
  digits of a fixed-width byte: the letter A (65) has two ones and five zeros, not six.
\<close>

theorem count_bits_in_paragraph_spec:
  "count_bits_in_paragraph s =
     ((\<Sum>c\<leftarrow>s. int (ones_in c)), (\<Sum>c\<leftarrow>s. int (zeros_in c)), int (length s))
   \<and> ones_in c = card {i. bit c i}
   \<and> ones_in c + zeros_in c = binary_length c
   \<and> (0 < c \<longrightarrow> 2 ^ (binary_length c - 1) \<le> c \<and> c < 2 ^ binary_length c)
   \<and> zeros_in 65 = 5 \<and> ones_in 65 = 2"
proof (intro conjI)
  show "count_bits_in_paragraph s =
     ((\<Sum>c\<leftarrow>s. int (ones_in c)), (\<Sum>c\<leftarrow>s. int (zeros_in c)), int (length s))"
    by (simp add: count_bits_in_paragraph_def count_bits_loop_sums)
  show "ones_in c = card {i. bit c i}"
    by (rule ones_in_popcount)
  show "ones_in c + zeros_in c = binary_length c"
    by (rule ones_zeros_in_length)
  show "0 < c \<longrightarrow> 2 ^ (binary_length c - 1) \<le> c \<and> c < 2 ^ binary_length c"
    using floorlog_bounds [of c 2] by (simp add: binary_length_def)
  have d: "bin_digits 65 = ''1000001''"
    by (simp add: bin_digits.simps)
  show "zeros_in 65 = 5"
    by (simp add: zeros_in_def binary_rep_digits d)
  show "ones_in 65 = 2"
    by (simp add: ones_in_def binary_rep_digits d)
qed

theorem count_bits_in_paragraph_spec_witness:
  "count_bits_in_paragraph [72, 105, 0, 8364] = (11, 18, 4)
   \<and> ones_in 8364 + zeros_in 8364 = 14 \<and> binary_length 8364 = 14
   \<and> (2::nat) ^ 13 \<le> 8364 \<and> (8364::nat) < 2 ^ 14"
proof -
  have d: "bin_digits 72 = ''1001000''" "bin_digits 105 = ''1101001''" "bin_digits 0 = ''0''"
    "bin_digits 8364 = ''10000010101100''"
    by (simp_all add: bin_digits.simps)
  have v: "ones_in 72 = 2" "zeros_in 72 = 5" "ones_in 105 = 4" "zeros_in 105 = 3"
    "ones_in 0 = 0" "zeros_in 0 = 1" "ones_in 8364 = 5" "zeros_in 8364 = 9"
    by (simp_all add: ones_in_def zeros_in_def binary_rep_digits d)
  from count_bits_in_paragraph_spec [of "[72, 105, 0, 8364]" 8364] show ?thesis
    by (simp add: v)
qed

section \<open>Properties of the channel operations\<close>

lemma print_fields [simp]:
  "tx_log (print l w) = tx_log w" "rx_buf (print l w) = rx_buf w" "rx_log (print l w) = rx_log w"
  "polls (print l w) = polls w" "ticks (print l w) = ticks w" "is_open (print l w) = is_open w"
  "sleeps (print l w) = sleeps w" "out (print l w) = out w @ [l]"
  by (simp_all add: print_def)

lemma time_sleep_fields [simp]:
  "tx_log (time_sleep w) = tx_log w" "rx_buf (time_sleep w) = rx_buf w"
  "rx_log (time_sleep w) = rx_log w" "polls (time_sleep w) = polls w"
  "ticks (time_sleep w) = ticks w" "is_open (time_sleep w) = is_open w"
  "out (time_sleep w) = out w"
  by (simp_all add: time_sleep_def)

lemma time_now_fields [simp]:
  "fst (time_now e w) = clock e (ticks w)"
  "tx_log (snd (time_now e w)) = tx_log w" "rx_buf (snd (time_now e w)) = rx_buf w"
  "rx_log (snd (time_now e w)) = rx_log w" "polls (snd (time_now e w)) = polls w"
  "ticks (snd (time_now e w)) = Suc (ticks w)" "is_open (snd (time_now e w)) = is_open w"
  "out (snd (time_now e w)) = out w" "sleeps (snd (time_now e w)) = sleeps w"
  by (simp_all add: time_now_def)

lemma ser_in_waiting_fields [simp]:
  "fst (ser_in_waiting e w) = length (rx_buf w @ arrive e (polls w))"
  "tx_log (snd (ser_in_waiting e w)) = tx_log w"
  "rx_buf (snd (ser_in_waiting e w)) = rx_buf w @ arrive e (polls w)"
  "rx_log (snd (ser_in_waiting e w)) = rx_log w"
  "polls (snd (ser_in_waiting e w)) = Suc (polls w)"
  "ticks (snd (ser_in_waiting e w)) = ticks w"
  "is_open (snd (ser_in_waiting e w)) = is_open w"
  "out (snd (ser_in_waiting e w)) = out w"
  by (simp_all add: ser_in_waiting_def Let_def)

lemma ser_readline_fields [simp]:
  "tx_log (snd (ser_readline e w)) = tx_log w"
  "ticks (snd (ser_readline e w)) = ticks w"
  "is_open (snd (ser_readline e w)) = is_open w"
  "out (snd (ser_readline e w)) = out w"
  "rx_log (snd (ser_readline e w)) = rx_log w @ [fst (ser_readline e w)]"
  by (simp_all add: ser_readline_def Let_def)

lemma ser_read1_fields [simp]:
  "fst (ser_read1 w) = take 1 (rx_buf w)"
  "tx_log (snd (ser_read1 w)) = tx_log w"
  "rx_buf (snd (ser_read1 w)) = drop 1 (rx_buf w)"
  "rx_log (snd (ser_read1 w)) = rx_log w @ [take 1 (rx_buf w)]"
  "polls (snd (ser_read1 w)) = polls w"
  "ticks (snd (ser_read1 w)) = ticks w"
  "is_open (snd (ser_read1 w)) = is_open w"
  "out (snd (ser_read1 w)) = out w"
  by (simp_all add: ser_read1_def)

lemma drain_response_fields [simp]:
  "tx_log (drain_response e w) = tx_log w"
  "ticks (drain_response e w) = ticks w"
  "is_open (drain_response e w) = is_open w"
  by (simp_all add: drain_response_def Let_def split_beta split: sum.splits)

lemma ser_write_Inr:
  "ser_write e d w = Inr w' \<longleftrightarrow> write_ok e (length (tx_log w)) \<and> w' = w\<lparr>tx_log := tx_log w @ [d]\<rparr>"
  by (auto simp: ser_write_def)

lemma send_loop_Inr:
  "send_loop e n count P (chara, sent, w) = Inr (chara', sent', w') \<Longrightarrow>
     sent' = sent + int (length P) \<and> chara' = chara @ P \<and> is_open w' = is_open w \<and> ticks w' = ticks w \<and>
     (\<exists>ws. tx_log w' = tx_log w @ ws \<and> length ws = length P \<and> map utf8_encode_char P = map Inr ws)"
proof (induction P arbitrary: count chara sent w)
  case Nil
  then show ?case by simp
next
  case (Cons c P)
  from Cons.prems obtain d where d: "utf8_encode_char c = Inr d"
    by (auto split: sum.splits)
  from Cons.prems d obtain w1 where w1: "ser_write e d w = Inr w1"
    by (auto split: sum.splits)
  define w4 where "w4 = (let w2 = (if count = n - 1 then time_sleep w1 else w1);
                    (k, w3) = ser_in_waiting e w2
                in (if k > 0 then drain_response e w3 else w3))"
  have rec: "send_loop e n (count + 1) P (chara @ [c], sent + 1, w4) = Inr (chara', sent', w')"
    using Cons.prems d w1 by (simp add: w4_def Let_def split_beta)
  have w4: "tx_log w4 = tx_log w @ [d]" "is_open w4 = is_open w" "ticks w4 = ticks w"
    using w1 by (auto simp: w4_def Let_def split_beta ser_write_Inr)
  from Cons.IH [OF rec] w4 d show ?case
    by auto
qed






lemma env_echo_simps:
  "clock env_echo k = real k / 2" "arrive env_echo k = (if k = 0 then [0x4F, 0x4B, 0x0A] else [])"
  "write_ok env_echo k = True"
  by (simp_all add: env_echo_def)




lemma enc65: "utf8_encode_char 65 = Inr [65]" "utf8_encode_char 66 = Inr [66]"
  by (simp_all add: utf8_encode_char_def)


lemma drain_OK:
  "drain_response e \<lparr>is_open = a, rx_buf = [0x4F, 0x4B, 0x0A], rx_log = l, tx_log = t,
       polls = p, ticks = k, sleeps = s, out = u\<rparr> =
     \<lparr>is_open = a, rx_buf = [], rx_log = l @ [[0x4F, 0x4B, 0x0A]], tx_log = t,
       polls = p, ticks = k, sleeps = s, out = u @ [Diagnostic [79, 75]]\<rparr>"
  by (simp add: drain_response_def ser_readline_def LF_def Let_def utf8_decode_one_def
      str_strip_def py_isspace_def print_def)

lemma send_data_echo:
  "send_data env_echo [65, 66] world_open =
     Inr (2, \<lparr>is_open = True, rx_buf = [], rx_log = [[79, 75, 10]],
            tx_log = [[65], [66]], polls = 2, ticks = 0, sleeps = 1,
            out = [Sending_banner, Diagnostic [79, 75], All_sent_banner]\<rparr>)"
  by (simp add: send_data_def world_open_def enc65 ser_write_def env_echo_simps
      ser_in_waiting_def drain_OK print_def time_sleep_def)





section \<open>Properties of the Receiver\<close>

lemma report_speed_Inr:
  "report_speed n el w =
     Inr (if el > 0 then print (SpeedRx (real_of_int (n * 8) / el)) w else w)"
  by (simp add: report_speed_def py_truediv_def)

lemma receive_report_not_due:
  "\<not> 1 \<le> clock e (ticks w) - last_report_time r \<Longrightarrow>
   receive_report e (r, w) = Inr (r, snd (time_now e w))"
  by (simp add: receive_report_def split_beta Let_def)

lemma receive_report_due:
  assumes "1 \<le> clock e (ticks w) - last_report_time r"
  shows "\<exists>w'. receive_report e (r, w) =
            Inr (r\<lparr>total_received_bytes := 0, start_receive_time := clock e (Suc (Suc (ticks w))),
                   last_report_time := clock e (Suc (Suc (Suc (ticks w))))\<rparr>, w')
          \<and> out w' = out w @
               (if clock e (Suc (ticks w)) - start_receive_time r > 0
                then [SpeedRx (real_of_int (total_received_bytes r * 8)
                        / (clock e (Suc (ticks w)) - start_receive_time r))]
                else [])
          \<and> ticks w' = ticks w + 4 \<and> rx_buf w' = rx_buf w \<and> rx_log w' = rx_log w
          \<and> polls w' = polls w \<and> is_open w' = is_open w \<and> tx_log w' = tx_log w"
  using assms
  by (simp add: receive_report_def split_beta Let_def report_speed_Inr)

lemma receive_report_total:
  "\<exists>r' w'. receive_report e (r, w) = Inr (r', w')
      \<and> received_data r' = received_data r \<and> no_data r' = no_data r
      \<and> last_activity_time r' = last_activity_time r
      \<and> rx_buf w' = rx_buf w \<and> rx_log w' = rx_log w
      \<and> polls w' = polls w \<and> is_open w' = is_open w \<and> tx_log w' = tx_log w"
proof (cases "1 \<le> clock e (ticks w) - last_report_time r")
  case True
  from receive_report_due [OF True] show ?thesis by auto
next
  case False
  then show ?thesis by (simp add: receive_report_not_due)
qed

lemma receive_poll_empty:
  "rx_buf w = [] \<Longrightarrow> arrive e (polls w) = [] \<Longrightarrow>
   receive_poll e (r, w) = (r, snd (ser_in_waiting e w))"
  by (simp add: receive_poll_def split_beta Let_def)

lemma receive_poll_byte:
  assumes "rx_buf w @ arrive e (polls w) = b # bs"
  shows "\<exists>w'. receive_poll e (r, w) =
      (r\<lparr>received_data := received_data r @ [b], no_data := False,
         total_received_bytes := total_received_bytes r + 1,
         last_activity_time := clock e (ticks w)\<rparr>, w')
      \<and> rx_buf w' = bs \<and> rx_log w' = rx_log w @ [[b]] \<and> polls w' = Suc (polls w)
      \<and> ticks w' = Suc (ticks w) \<and> out w' = out w \<and> is_open w' = is_open w
      \<and> tx_log w' = tx_log w"
proof -
  from assms have ne: "\<not> (rx_buf w = [] \<and> arrive e (polls w) = [])" by auto
  from assms ne show ?thesis
    by (simp add: receive_poll_def split_beta Let_def)
qed


lemma receive_iter_total:
  "\<exists>s'. receive_iter e s = Inr (Continue s') \<or> receive_iter e s = Inr (Break s')"
proof -
  obtain r1 w1 where p: "receive_poll e s = (r1, w1)" by (cases "receive_poll e s")
  obtain r' w' where "receive_report e (r1, snd (time_now e w1)) = Inr (r', w')"
    using receive_report_total by blast
  with p show ?thesis
    by (simp add: receive_iter_def split_beta Let_def)
qed

lemma receive_iter_no_error: "receive_iter e s \<noteq> Inl x"
  using receive_iter_total [of e s] by auto

lemma receive_loop_no_error: "receive_loop e fuel s \<noteq> Some (Inl x)"
proof (induction fuel arbitrary: s)
  case 0
  then show ?case by simp
next
  case (Suc fuel)
  from receive_iter_total [of e s] obtain s' where
    "receive_iter e s = Inr (Continue s') \<or> receive_iter e s = Inr (Break s')" by blast
  then show ?case
    using Suc.IH [of s'] by auto
qed

lemma receive_iter_silent:
  assumes "no_data r" "rx_buf w = []" "arrive e (polls w) = []"
  shows "\<exists>r' w'. receive_iter e (r, w) = Inr (Continue (r', w'))
           \<and> no_data r' \<and> rx_buf w' = [] \<and> polls w' = Suc (polls w)"
proof -
  let ?w1 = "snd (ser_in_waiting e w)"
  have p: "receive_poll e (r, w) = (r, ?w1)"
    using assms by (simp add: receive_poll_empty)
  obtain r' w' where rep: "receive_report e (r, snd (time_now e ?w1)) = Inr (r', w')"
      "no_data r' = no_data r" "rx_buf w' = rx_buf (snd (time_now e ?w1))"
      "polls w' = polls (snd (time_now e ?w1))"
    using receive_report_total [of e r "snd (time_now e ?w1)"] by auto
  have "receive_iter e (r, w) = Inr (Continue (r', w'))"
    using p rep(1) assms(1) by (simp add: receive_iter_def split_beta Let_def)
  with rep assms show ?thesis by simp
qed

lemma receive_loop_silent:
  assumes "no_data r" "rx_buf w = []" "\<forall>k\<ge>polls w. arrive e k = []"
  shows "receive_loop e fuel (r, w) = None"
  using assms
proof (induction fuel arbitrary: r w)
  case 0
  then show ?case by simp
next
  case (Suc fuel)
  from Suc.prems have "arrive e (polls w) = []" by simp
  from receive_iter_silent [OF Suc.prems(1,2) this] obtain r' w' where
    it: "receive_iter e (r, w) = Inr (Continue (r', w'))" "no_data r'" "rx_buf w' = []"
      "polls w' = Suc (polls w)"
    by blast
  have "receive_loop e fuel (r', w') = None"
    using it Suc.prems(3) by (intro Suc.IH) auto
  with it(1) show ?case by simp
qed

lemma receive_init_fields:
  "no_data (fst (receive_init e w))" "received_data (fst (receive_init e w)) = []"
  "total_received_bytes (fst (receive_init e w)) = 0"
  "rx_buf (snd (receive_init e w)) = rx_buf w" "polls (snd (receive_init e w)) = polls w"
  "rx_log (snd (receive_init e w)) = rx_log w" "is_open (snd (receive_init e w)) = is_open w"
  "tx_log (snd (receive_init e w)) = tx_log w"
  "out (snd (receive_init e w)) = out w @ [Waiting_banner]"
  "ticks (snd (receive_init e w)) = ticks w + 3"
  by (simp_all add: receive_init_def split_beta Let_def)

lemma env_silent_simps:
  "clock env_silent k = real k" "arrive env_silent k = []" "write_ok env_silent k = True"
  by (simp_all add: env_silent_def)

text \<open>
  C2. When the input buffer is empty and the device delivers nothing from now on, the
  Receiver is still in its loop after any number of iterations: the exit test never
  fires, because the flag \<open>no_data\<close> is never cleared. So \<open>receive_data\<close> does not
  return, and neither does a session whose Transmitter has left such a channel.
\<close>

theorem receive_data_never_returns_without_input:
  assumes "rx_buf w = []" and "\<forall>k\<ge>polls w. arrive e k = []"
  shows "receive_data e fuel w = None \<and> receive_loop e fuel (receive_init e w) = None
         \<and> (send_data e P w0 = Inr (sent, w) \<longrightarrow> main e P fuel w0 = None)"
proof -
  obtain r w' where i: "receive_init e w = (r, w')" by (cases "receive_init e w")
  have "receive_loop e fuel (r, w') = None"
  proof (rule receive_loop_silent)
    show "no_data r" using receive_init_fields(1) [of e w] i by simp
    show "rx_buf w' = []" using receive_init_fields(4) [of e w] i assms(1) by simp
    show "\<forall>k\<ge>polls w'. arrive e k = []"
      using receive_init_fields(5) [of e w] i assms(2) by simp
  qed
  with i have l: "receive_loop e fuel (receive_init e w) = None" by simp
  then have d: "receive_data e fuel w = None" by (simp add: receive_data_def)
  from d l show ?thesis by (auto simp: main_def)
qed


theorem receive_data_never_returns_without_input_witness:
  "receive_data env_silent 1000 world_open = None
   \<and> receive_loop env_silent 1000 (receive_init env_silent world_open) = None"
  using receive_data_never_returns_without_input [of world_open env_silent 1000]
  by (simp add: world_open_def env_silent_simps)

text \<open>
  C9. The speed is computed only when \<open>elapsed_time > 0\<close>: \<open>report_speed\<close> divides (and
  prints) exactly under that guard and does nothing otherwise, so the division, which
  raises on a zero divisor, never raises in the report, in an iteration, in the loop or in
  \<open>receive_data\<close>, whatever the clock readings are.
\<close>

theorem receive_never_divides_by_zero:
  "report_speed n elapsed_time w =
     Inr (if 0 < elapsed_time then print (SpeedRx (real_of_int (n * 8) / elapsed_time)) w else w)
   \<and> (py_truediv a b = Inl ZeroDivisionError \<longleftrightarrow> b = 0)
   \<and> receive_report e s \<noteq> Inl x \<and> receive_iter e s \<noteq> Inl x
   \<and> receive_loop e fuel s \<noteq> Some (Inl x) \<and> receive_data e fuel w \<noteq> Some (Inl x)"
proof (intro conjI)
  show "report_speed n elapsed_time w =
     Inr (if 0 < elapsed_time then print (SpeedRx (real_of_int (n * 8) / elapsed_time)) w else w)"
    by (rule report_speed_Inr)
  show "py_truediv a b = Inl ZeroDivisionError \<longleftrightarrow> b = 0"
    by (simp add: py_truediv_def)
  show "receive_report e s \<noteq> Inl x"
    using receive_report_total [of e "fst s" "snd s"] by auto
  show "receive_iter e s \<noteq> Inl x"
    by (rule receive_iter_no_error)
  show "receive_loop e fuel s \<noteq> Some (Inl x)"
    by (rule receive_loop_no_error)
  show "receive_data e fuel w \<noteq> Some (Inl x)"
    using receive_loop_no_error [of e fuel "receive_init e w"]
    by (auto simp: receive_data_def split: option.splits sum.splits)
qed

theorem receive_never_divides_by_zero_witness:
  "report_speed 3 0 world_open = Inr world_open
   \<and> report_speed 3 2 world_open = Inr (print (SpeedRx 12) world_open)
   \<and> py_truediv 24 0 = Inl ZeroDivisionError
   \<and> receive_loop env_silent 5 (receive_init env_silent world_open)
       \<noteq> Some (Inl (ZeroDivisionError, world_open))"
  using receive_never_divides_by_zero [of 3 0 world_open 24 0 env_silent
      "receive_init env_silent world_open" "(ZeroDivisionError, world_open)" 5]
    receive_never_divides_by_zero [of 3 2 world_open 24 0 env_silent
      "receive_init env_silent world_open" "(ZeroDivisionError, world_open)" 5]
  by simp

section \<open>When the Receiver leaves its loop\<close>

lemma receive_report_cases:
  "\<exists>s'. receive_report e s = Inr s'"
  using receive_report_total [of e "fst s" "snd s"] by auto

lemma receive_iter_eq:
  "receive_iter e s =
     Inr (if timed_out e s then Break (after_iter e s) else Continue (after_iter e s))"
proof -
  obtain r1 w1 where p: "receive_poll e s = (r1, w1)" by (cases "receive_poll e s")
  obtain s' where rep: "receive_report e (r1, snd (time_now e w1)) = Inr s'"
    using receive_report_cases by blast
  have it: "receive_iter e s =
      (if clock e (ticks w1) - last_activity_time r1 > 3 \<and> \<not> no_data r1
       then Inr (Break (r1, snd (time_now e w1))) else Inr (Continue s'))"
    using p rep by (simp add: receive_iter_def split_beta Let_def TIMEOUT_THRESHOLD_def)
  have t: "timed_out e s \<longleftrightarrow> clock e (ticks w1) - last_activity_time r1 > 3 \<and> \<not> no_data r1"
    using p by (auto simp: timed_out_def has_data_def inactivity_def)
  show ?thesis
    using it t by (simp add: after_iter_def)
qed


lemma receive_loop_Suc:
  "receive_loop e (Suc k) s =
     (if timed_out e s then Some (Inr (after_iter e s)) else receive_loop e k (after_iter e s))"
  by (simp add: receive_iter_eq)

lemma receive_loop_Suc_out:
  "timed_out e s \<Longrightarrow> receive_loop e (Suc k) s = Some (Inr (after_iter e s))"
  by (simp only: receive_loop_Suc if_True)

lemma receive_loop_Suc_on:
  "\<not> timed_out e s \<Longrightarrow> receive_loop e (Suc k) s = receive_loop e k (after_iter e s)"
  by (simp only: receive_loop_Suc if_False)




lemma env_burst_simps:
  "clock env_burst k = (if k < 6 then 0 else if k = 6 then 3 else 4)"
  "arrive env_burst k = (if k = 0 then [0x41] else [])"
  "write_ok env_burst k = True"
  by (simp_all add: env_burst_def)

lemma burst_init:
  "receive_init env_burst world_open =
     (\<lparr>received_data = [], total_received_bytes = 0, start_receive_time = 0,
        last_activity_time = 0, last_report_time = 0, no_data = True\<rparr>,
      \<lparr>is_open = True, rx_buf = [], rx_log = [], tx_log = [], polls = 0,
        ticks = 3, sleeps = 0, out = [Waiting_banner]\<rparr>)"
  by (simp add: receive_init_def world_open_def time_now_def print_def env_burst_simps)

lemma burst_iter0:
  "receive_iter env_burst
     (\<lparr>received_data = [], total_received_bytes = 0, start_receive_time = 0,
        last_activity_time = 0, last_report_time = 0, no_data = True\<rparr>,
      \<lparr>is_open = a, rx_buf = [], rx_log = [], tx_log = t, polls = 0,
        ticks = 3, sleeps = z, out = u\<rparr>) =
   Inr (Continue
     (\<lparr>received_data = [0x41], total_received_bytes = 1, start_receive_time = 0,
        last_activity_time = 0, last_report_time = 0, no_data = False\<rparr>,
      \<lparr>is_open = a, rx_buf = [], rx_log = [[0x41]], tx_log = t, polls = Suc 0,
        ticks = 6, sleeps = z, out = u\<rparr>))"
  by (simp add: receive_iter_def receive_poll_def ser_in_waiting_def ser_read1_def
      receive_report_def time_now_def env_burst_simps TIMEOUT_THRESHOLD_def)

lemma burst_iter1:
  "receive_iter env_burst
     (\<lparr>received_data = [0x41], total_received_bytes = 1, start_receive_time = 0,
        last_activity_time = 0, last_report_time = 0, no_data = False\<rparr>,
      \<lparr>is_open = a, rx_buf = [], rx_log = [[0x41]], tx_log = t, polls = Suc 0,
        ticks = 6, sleeps = z, out = u\<rparr>) =
   Inr (Continue
     (\<lparr>received_data = [0x41], total_received_bytes = 0, start_receive_time = 4,
        last_activity_time = 0, last_report_time = 4, no_data = False\<rparr>,
      \<lparr>is_open = a, rx_buf = [], rx_log = [[0x41]], tx_log = t, polls = 2,
        ticks = 11, sleeps = z, out = u @ [SpeedRx 2]\<rparr>))"
  by (simp add: receive_iter_def receive_poll_def ser_in_waiting_def ser_read1_def
      receive_report_def report_speed_def py_truediv_def
      time_now_def print_def env_burst_simps TIMEOUT_THRESHOLD_def)




lemma burst_state1:
  "nth_state env_burst (Suc 0) (receive_init env_burst world_open) =
     (\<lparr>received_data = [0x41], total_received_bytes = 1, start_receive_time = 0,
        last_activity_time = 0, last_report_time = 0, no_data = False\<rparr>,
      \<lparr>is_open = True, rx_buf = [], rx_log = [[0x41]], tx_log = [], polls = Suc 0,
        ticks = 6, sleeps = 0, out = [Waiting_banner]\<rparr>)"
  by (simp add: burst_init after_iter_def burst_iter0)

lemma burst_state2:
  "nth_state env_burst (Suc (Suc 0)) (receive_init env_burst world_open) =
     (\<lparr>received_data = [0x41], total_received_bytes = 0, start_receive_time = 4,
        last_activity_time = 0, last_report_time = 4, no_data = False\<rparr>,
      \<lparr>is_open = True, rx_buf = [], rx_log = [[0x41]], tx_log = [], polls = 2,
        ticks = 11, sleeps = 0, out = [Waiting_banner, SpeedRx 2]\<rparr>)"
  by (simp add: burst_init after_iter_def burst_iter0 burst_iter1)





section \<open>The session: closing the channel, and a failing Transmitter\<close>

lemma drain_response_out:
  "filter receiver_line (out (drain_response e w)) = filter receiver_line (out w)"
  by (simp add: drain_response_def Let_def split_beta split: sum.splits)

lemma send_loop_Inl:
  "send_loop e n count P (chara, sent, w) = Inl (err, w') \<Longrightarrow>
     ticks w' = ticks w \<and> is_open w' = is_open w
     \<and> filter receiver_line (out w') = filter receiver_line (out w)"
proof (induction P arbitrary: count chara sent w)
  case Nil
  then show ?case by simp
next
  case (Cons c P)
  show ?case
  proof (cases "utf8_encode_char c")
    case (Inl x)
    with Cons.prems show ?thesis by simp
  next
    case (Inr d)
    show ?thesis
    proof (cases "ser_write e d w")
      case (Inl x)
      with Cons.prems Inr show ?thesis
        by (auto simp: ser_write_def split: if_splits)
    next
      case w1: (Inr w1)
      define w4 where "w4 = (let w2 = (if count = n - 1 then time_sleep w1 else w1);
                    (k, w3) = ser_in_waiting e w2
                in (if k > 0 then drain_response e w3 else w3))"
      have rec: "send_loop e n (count + 1) P (chara @ [c], sent + 1, w4) = Inl (err, w')"
        using Cons.prems Inr w1 by (simp add: w4_def Let_def split_beta)
      have w4: "ticks w4 = ticks w" "is_open w4 = is_open w"
          "filter receiver_line (out w4) = filter receiver_line (out w)"
        using w1 by (auto simp: w4_def Let_def split_beta ser_write_Inr drain_response_out)
      from Cons.IH [OF rec] w4 show ?thesis by simp
    qed
  qed
qed

lemma send_loop_Inr_out:
  "send_loop e n count P (chara, sent, w) = Inr (chara', sent', w') \<Longrightarrow>
     filter receiver_line (out w') = filter receiver_line (out w)"
proof (induction P arbitrary: count chara sent w)
  case Nil
  then show ?case by simp
next
  case (Cons c P)
  from Cons.prems obtain d where d: "utf8_encode_char c = Inr d"
    by (auto split: sum.splits)
  from Cons.prems d obtain w1 where w1: "ser_write e d w = Inr w1"
    by (auto split: sum.splits)
  define w4 where "w4 = (let w2 = (if count = n - 1 then time_sleep w1 else w1);
                    (k, w3) = ser_in_waiting e w2
                in (if k > 0 then drain_response e w3 else w3))"
  have rec: "send_loop e n (count + 1) P (chara @ [c], sent + 1, w4) = Inr (chara', sent', w')"
    using Cons.prems d w1 by (simp add: w4_def Let_def split_beta)
  have w4: "filter receiver_line (out w4) = filter receiver_line (out w)"
    using w1 by (auto simp: w4_def Let_def split_beta ser_write_Inr drain_response_out)
  from Cons.IH [OF rec] w4 show ?case by simp
qed

lemma send_data_Inl:
  "send_data e P w = Inl (err, w') \<Longrightarrow>
     ticks w' = ticks w \<and> is_open w' = is_open w
     \<and> filter receiver_line (out w') = filter receiver_line (out w)"
proof -
  assume a: "send_data e P w = Inl (err, w')"
  then have "send_loop e (int (length P)) 0 P ([], 0, print Sending_banner w) = Inl (err, w')"
    by (auto simp: send_data_def split: sum.splits)
  from send_loop_Inl [OF this] show ?thesis by simp
qed

lemma send_data_Inr:
  "send_data e P w = Inr (sent, w') \<Longrightarrow> ticks w' = ticks w \<and> is_open w' = is_open w"
proof -
  assume a: "send_data e P w = Inr (sent, w')"
  then obtain chara w1 where
    "send_loop e (int (length P)) 0 P ([], 0, print Sending_banner w) = Inr (chara, sent, w1)"
    and w': "w' = print All_sent_banner w1"
    by (auto simp: send_data_def split: sum.splits)
  from send_loop_Inr [OF this(1)] w' show ?thesis by simp
qed

lemma receive_poll_frame:
  "is_open (snd (receive_poll e s)) = is_open (snd s)"
  "tx_log (snd (receive_poll e s)) = tx_log (snd s)"
  "out (snd (receive_poll e s)) = out (snd s)"
  by (simp_all add: receive_poll_def Let_def split_beta)

lemma after_iter_frame:
  "is_open (snd (after_iter e s)) = is_open (snd s)"
  "tx_log (snd (after_iter e s)) = tx_log (snd s)"
proof -
  obtain r1 w1 where p: "receive_poll e s = (r1, w1)" by (cases "receive_poll e s")
  from receive_poll_frame [of e s] p
  have f: "is_open w1 = is_open (snd s)" "tx_log w1 = tx_log (snd s)" by simp_all
  obtain r' w' where rep: "receive_report e (r1, snd (time_now e w1)) = Inr (r', w')"
      "is_open w' = is_open (snd (time_now e w1))" "tx_log w' = tx_log (snd (time_now e w1))"
    using receive_report_total [of e r1 "snd (time_now e w1)"] by auto
  have a: "after_iter e s = (r', w') \<or> after_iter e s = (r1, snd (time_now e w1))"
    using p rep(1) by (simp add: after_iter_def receive_iter_def split_beta Let_def)
  from a f rep(2,3) show "is_open (snd (after_iter e s)) = is_open (snd s)"
    by auto
  from a f rep(2,3) show "tx_log (snd (after_iter e s)) = tx_log (snd s)"
    by auto
qed

lemma receive_loop_frame:
  "receive_loop e fuel s = Some (Inr s') \<Longrightarrow> is_open (snd s') = is_open (snd s)"
proof (induction fuel arbitrary: s)
  case 0
  then show ?case by simp
next
  case (Suc fuel)
  show ?case
  proof (cases "timed_out e s")
    case True
    from receive_loop_Suc_out [OF True, of fuel] Suc.prems have "s' = after_iter e s" by simp
    then show ?thesis by (simp add: after_iter_frame)
  next
    case False
    from receive_loop_Suc_on [OF False, of fuel] Suc.prems
    have "receive_loop e fuel (after_iter e s) = Some (Inr s')" by simp
    from Suc.IH [OF this] show ?thesis by (simp add: after_iter_frame)
  qed
qed

lemma receive_finish_frame: "is_open (receive_finish s) = is_open (snd s)"
  by (simp add: receive_finish_def split_beta split: sum.splits)

lemma receive_data_frame:
  "receive_data e fuel w = Some (Inr w') \<Longrightarrow> is_open w' = is_open w"
proof -
  assume "receive_data e fuel w = Some (Inr w')"
  then obtain s where l: "receive_loop e fuel (receive_init e w) = Some (Inr s)"
    and w': "w' = receive_finish s"
    by (auto simp: receive_data_def split: option.splits sum.splits)
  from receive_loop_frame [OF l] w' show ?thesis
    by (simp add: receive_finish_frame receive_init_fields)
qed


lemma env_write_fails_simps:
  "clock env_write_fails k = real k" "arrive env_write_fails k = []"
  "write_ok env_write_fails k = (k < 1)"
  by (simp_all add: env_write_fails_def)

lemma send_data_write_fails:
  "send_data env_write_fails [65, 66] world_open =
     Inl (SerialException,
       \<lparr>is_open = True, rx_buf = [], rx_log = [], tx_log = [[65]], polls = Suc 0,
         ticks = 0, sleeps = 0, out = [Sending_banner]\<rparr>)"
  by (simp add: send_data_def world_open_def enc65 ser_write_def env_write_fails_simps
      ser_in_waiting_def print_def)







text \<open>
  C5. When \<open>send_data\<close> fails, the session ends with that error in the world that
  \<open>send_data\<close> left: the Receiver has read no clock value and printed no banner, no speed
  report and no decoded text.
\<close>

theorem failed_send_skips_receiver:
  assumes "send_data e P w = Inl (err, w')"
  shows "main e P fuel w = Some (Inl (err, w'))
         \<and> ticks w' = ticks w
         \<and> filter receiver_line (out w') = filter receiver_line (out w)"
  using assms send_data_Inl [OF assms] by (simp add: main_def)


theorem failed_send_skips_receiver_witness:
  "main env_write_fails [65, 66] 3 world_open =
     Some (Inl (SerialException,
       \<lparr>is_open = True, rx_buf = [], rx_log = [], tx_log = [[65]], polls = Suc 0,
         ticks = 0, sleeps = 0, out = [Sending_banner]\<rparr>))"
  using failed_send_skips_receiver [OF send_data_write_fails, of 3] by simp

section \<open>The throughput reports\<close>










section \<open>The two phases share the channel as a queue\<close>

lemma arrivals_same [simp]: "arrivals e i i = []"
  by (simp add: arrivals_def)

lemma arrivals_Suc: "i \<le> j \<Longrightarrow> arrivals e i (Suc j) = arrivals e i j @ arrive e j"
  by (simp add: arrivals_def)

lemma arrivals_one: "arrivals e i (Suc i) = arrive e i"
  by (simp add: arrivals_def)

lemma arrivals_append:
  "i \<le> j \<Longrightarrow> j \<le> k \<Longrightarrow> arrivals e i j @ arrivals e j k = arrivals e i k"
proof (induction k)
  case 0
  then show ?case by simp
next
  case (Suc k)
  show ?case
  proof (cases "j = Suc k")
    case True
    then show ?thesis by simp
  next
    case False
    with Suc.prems have jk: "j \<le> k" by simp
    with Suc.prems have ik: "i \<le> k" by simp
    from Suc.IH [OF Suc.prems(1) jk] show ?thesis
      by (simp add: arrivals_Suc [OF jk] arrivals_Suc [OF ik])
  qed
qed

lemma fifo_refl: "fifo e w w"
  by (simp add: fifo_def)

lemma fifo_trans: "fifo e w w' \<Longrightarrow> fifo e w' w'' \<Longrightarrow> fifo e w w''"
  by (auto simp: fifo_def arrivals_append)

lemma fifo_same:
  "rx_buf w' = rx_buf w \<Longrightarrow> rx_log w' = rx_log w \<Longrightarrow> polls w' = polls w \<Longrightarrow> fifo e w w'"
  by (simp add: fifo_def delivered_def)

lemma fifo_in_waiting: "fifo e w (snd (ser_in_waiting e w))"
  by (simp add: fifo_def delivered_def arrivals_one)

lemma fifo_read1: "fifo e w (snd (ser_read1 w))"
  by (simp add: fifo_def delivered_def)

lemma prefix_drop: "xs @ ys = buf \<Longrightarrow> xs @ drop (length xs) buf = buf"
  by auto

lemma readline_prefix:
  "(takeWhile P buf @ take 1 (dropWhile P buf))
     @ drop (length (takeWhile P buf @ take 1 (dropWhile P buf))) buf = buf"
  by (rule prefix_drop [where ys = "drop 1 (dropWhile P buf)"]) simp

lemma fifo_readline: "fifo e w (snd (ser_readline e w))"
  using readline_prefix [of "\<lambda>b. b \<noteq> LF" "rx_buf w"]
    readline_prefix [of "\<lambda>b. b \<noteq> LF" "rx_buf w @ arrive e (polls w)"]
  by (simp add: fifo_def delivered_def ser_readline_def Let_def arrivals_one
      del: append_take_drop_id takeWhile_dropWhile_id)


lemma fifo_print: "fifo e w (print l w)"
  by (rule fifo_same) simp_all

lemma fifo_drain: "fifo e w (drain_response e w)"
proof -
  have "fifo e (snd (ser_readline e w)) (drain_response e w)"
    by (rule fifo_same)
       (simp_all add: drain_response_def Let_def split_beta print_def split: sum.splits)
  with fifo_readline [of e w] show ?thesis by (rule fifo_trans)
qed

lemma fifo_send_loop:
  "send_loop e n count P (chara, sent, w) = Inr (chara', sent', w') \<Longrightarrow> fifo e w w'"
proof (induction P arbitrary: count chara sent w)
  case Nil
  then show ?case by (simp add: fifo_refl)
next
  case (Cons c P)
  from Cons.prems obtain d where d: "utf8_encode_char c = Inr d"
    by (auto split: sum.splits)
  from Cons.prems d obtain w1 where w1: "ser_write e d w = Inr w1"
    by (auto split: sum.splits)
  define w2 where "w2 = (if count = n - 1 then time_sleep w1 else w1)"
  define w3 where "w3 = snd (ser_in_waiting e w2)"
  define w4 where "w4 = (let w2 = (if count = n - 1 then time_sleep w1 else w1);
                    (k, w3) = ser_in_waiting e w2
                in (if k > 0 then drain_response e w3 else w3))"
  have rec: "send_loop e n (count + 1) P (chara @ [c], sent + 1, w4) = Inr (chara', sent', w')"
    using Cons.prems d w1 by (simp add: w4_def Let_def split_beta)
  have w4: "w4 = drain_response e w3 \<or> w4 = w3"
    by (simp add: w4_def w3_def w2_def Let_def split_beta)
  have a: "fifo e w w2"
    using w1 by (intro fifo_same) (auto simp: w2_def ser_write_Inr)
  have b: "fifo e w2 w3"
    unfolding w3_def by (rule fifo_in_waiting)
  have c: "fifo e w3 w4"
    using w4 by (auto simp: fifo_refl fifo_drain)
  have "fifo e w w4"
    by (rule fifo_trans [OF fifo_trans [OF a b] c])
  with Cons.IH [OF rec] show ?case by (rule fifo_trans [rotated])
qed

lemma fifo_send_data: "send_data e P w = Inr (sent, w') \<Longrightarrow> fifo e w w'"
proof -
  assume "send_data e P w = Inr (sent, w')"
  then obtain chara w1 where
    l: "send_loop e (int (length P)) 0 P ([], 0, print Sending_banner w) = Inr (chara, sent, w1)"
    and w': "w' = print All_sent_banner w1"
    by (auto simp: send_data_def split: sum.splits)
  have a: "fifo e w (print Sending_banner w)" by (rule fifo_print)
  have b: "fifo e (print Sending_banner w) w1" by (rule fifo_send_loop [OF l])
  have c: "fifo e w1 w'" unfolding w' by (rule fifo_print)
  show ?thesis by (rule fifo_trans [OF fifo_trans [OF a b] c])
qed

lemma receive_report_keeps:
  assumes "receive_report e (r, w) = Inr (r', w')"
  shows "received_data r' = received_data r
         \<and> (total_received_bytes r' = total_received_bytes r \<or> total_received_bytes r' = 0)
         \<and> rx_buf w' = rx_buf w \<and> rx_log w' = rx_log w \<and> polls w' = polls w"
proof (cases "1 \<le> clock e (ticks w) - last_report_time r")
  case True
  from receive_report_due [OF True] assms show ?thesis by auto
next
  case False
  from receive_report_not_due [OF False] assms show ?thesis by auto
qed

lemma receive_poll_fifo:
  assumes "total_received_bytes r \<le> int (length (received_data r))"
  shows "\<exists>reads. rx_log (snd (receive_poll e (r, w))) = rx_log w @ reads
           \<and> received_data (fst (receive_poll e (r, w))) = received_data r @ concat reads
           \<and> total_received_bytes r \<le> total_received_bytes (fst (receive_poll e (r, w)))
           \<and> total_received_bytes (fst (receive_poll e (r, w)))
               \<le> int (length (received_data (fst (receive_poll e (r, w)))))
           \<and> fifo e w (snd (receive_poll e (r, w)))"
proof (cases "rx_buf w @ arrive e (polls w)")
  case Nil
  then have "receive_poll e (r, w) = (r, snd (ser_in_waiting e w))"
    by (simp add: receive_poll_empty)
  with assms fifo_in_waiting [of e w] show ?thesis
    by (intro exI [of _ "[]"]) simp
next
  case (Cons b bs)
  from receive_poll_byte [OF Cons, of r] obtain w' where
    w': "receive_poll e (r, w) =
      (r\<lparr>received_data := received_data r @ [b], no_data := False,
         total_received_bytes := total_received_bytes r + 1,
         last_activity_time := clock e (ticks w)\<rparr>, w')"
      "rx_buf w' = bs" "rx_log w' = rx_log w @ [[b]]" "polls w' = Suc (polls w)"
    by blast
  have "fifo e w w'"
    using w'(2,3,4) Cons by (simp add: fifo_def delivered_def arrivals_one)
  with w' assms show ?thesis
    by (intro exI [of _ "[[b]]"]) simp
qed


lemma after_iter_fifo:
  assumes "total_received_bytes (fst s) \<le> int (length (received_data (fst s)))"
    and "0 \<le> total_received_bytes (fst s)"
  shows "\<exists>reads. rx_log (snd (after_iter e s)) = rx_log (snd s) @ reads
           \<and> received_data (fst (after_iter e s)) = received_data (fst s) @ concat reads
           \<and> 0 \<le> total_received_bytes (fst (after_iter e s))
           \<and> total_received_bytes (fst (after_iter e s))
               \<le> int (length (received_data (fst (after_iter e s))))
           \<and> fifo e (snd s) (snd (after_iter e s))"
proof -
  obtain r w where s: "s = (r, w)" by (cases s)
  obtain r1 w1 where p: "receive_poll e (r, w) = (r1, w1)" by (cases "receive_poll e (r, w)")
  from receive_poll_fifo [of r e w] assms s p obtain reads where
    r1: "rx_log w1 = rx_log w @ reads" "received_data r1 = received_data r @ concat reads"
      "0 \<le> total_received_bytes r1"
      "total_received_bytes r1 \<le> int (length (received_data r1))" "fifo e w w1"
    by auto
  let ?w2 = "snd (time_now e w1)"
  have f2: "fifo e w ?w2"
    by (rule fifo_trans [OF r1(5)]) (rule fifo_same, simp_all)
  obtain r' w' where rep: "receive_report e (r1, ?w2) = Inr (r', w')"
    using receive_report_cases [of e "(r1, ?w2)"] by (cases "receive_report e (r1, ?w2)") auto
  from receive_report_keeps [OF rep]
  have k: "received_data r' = received_data r1"
      "total_received_bytes r' = total_received_bytes r1 \<or> total_received_bytes r' = 0"
      "rx_buf w' = rx_buf ?w2" "rx_log w' = rx_log ?w2" "polls w' = polls ?w2"
    by simp_all
  have f3: "fifo e w w'"
    by (rule fifo_trans [OF f2]) (rule fifo_same, simp_all add: k)
  have a: "after_iter e s = (r', w') \<or> after_iter e s = (r1, ?w2)"
    using s p rep by (simp add: after_iter_def receive_iter_def split_beta Let_def)
  then show ?thesis
  proof
    assume "after_iter e s = (r', w')"
    with r1 k f3 s show ?thesis
      by (intro exI [of _ reads]) auto
  next
    assume "after_iter e s = (r1, ?w2)"
    with r1 f2 s show ?thesis
      by (intro exI [of _ reads]) auto
  qed
qed

lemma nth_state_fifo:
  assumes "total_received_bytes (fst s) \<le> int (length (received_data (fst s)))"
    and "0 \<le> total_received_bytes (fst s)"
  shows "\<exists>reads. rx_log (snd (nth_state e k s)) = rx_log (snd s) @ reads
           \<and> received_data (fst (nth_state e k s)) = received_data (fst s) @ concat reads
           \<and> 0 \<le> total_received_bytes (fst (nth_state e k s))
           \<and> total_received_bytes (fst (nth_state e k s))
               \<le> int (length (received_data (fst (nth_state e k s))))
           \<and> fifo e (snd s) (snd (nth_state e k s))"
  using assms
proof (induction k arbitrary: s)
  case 0
  then show ?case by (intro exI [of _ "[]"]) (simp add: fifo_refl)
next
  case (Suc k)
  from after_iter_fifo [OF Suc.prems, of e] obtain reads where
    a: "rx_log (snd (after_iter e s)) = rx_log (snd s) @ reads"
      "received_data (fst (after_iter e s)) = received_data (fst s) @ concat reads"
      "0 \<le> total_received_bytes (fst (after_iter e s))"
      "total_received_bytes (fst (after_iter e s))
          \<le> int (length (received_data (fst (after_iter e s))))"
      "fifo e (snd s) (snd (after_iter e s))"
    by blast
  from Suc.IH [OF a(4) a(3)] obtain reads' where
    b: "rx_log (snd (nth_state e k (after_iter e s))) = rx_log (snd (after_iter e s)) @ reads'"
      "received_data (fst (nth_state e k (after_iter e s)))
          = received_data (fst (after_iter e s)) @ concat reads'"
      "0 \<le> total_received_bytes (fst (nth_state e k (after_iter e s)))"
      "total_received_bytes (fst (nth_state e k (after_iter e s)))
          \<le> int (length (received_data (fst (nth_state e k (after_iter e s)))))"
      "fifo e (snd (after_iter e s)) (snd (nth_state e k (after_iter e s)))"
    by blast
  from a b fifo_trans [OF a(5) b(5)] show ?case
    by (intro exI [of _ "reads @ reads'"]) simp
qed

lemma nth_state_Suc_right: "nth_state e (Suc k) s = after_iter e (nth_state e k s)"
  by (induction k arbitrary: s) simp_all

lemma receive_loop_result_state:
  "receive_loop e fuel s = Some (Inr s') \<Longrightarrow> \<exists>j. s' = nth_state e j s"
proof (induction fuel arbitrary: s)
  case 0
  then show ?case by simp
next
  case (Suc fuel)
  show ?case
  proof (cases "timed_out e s")
    case True
    from receive_loop_Suc_out [OF True, of fuel] Suc.prems have "s' = nth_state e (Suc 0) s"
      by simp
    then show ?thesis by blast
  next
    case False
    from receive_loop_Suc_on [OF False, of fuel] Suc.prems
    have "receive_loop e fuel (after_iter e s) = Some (Inr s')" by simp
    from Suc.IH [OF this] obtain j where "s' = nth_state e (Suc j) s" by auto
    then show ?thesis by blast
  qed
qed

lemma env_duplex_simps:
  "clock env_duplex k = real k / 2"
  "arrive env_duplex k = (if k = 0 then [0x4F, 0x4B, 0x0A] else if k = 2 then [0x41] else [])"
  "write_ok env_duplex k = True"
  by (simp_all add: env_duplex_def)

lemma send_data_duplex:
  "send_data env_duplex [65, 66] world_open =
     Inr (2, \<lparr>is_open = True, rx_buf = [], rx_log = [[79, 75, 10]],
            tx_log = [[65], [66]], polls = 2, ticks = 0, sleeps = Suc 0,
            out = [Sending_banner, Diagnostic [79, 75], All_sent_banner]\<rparr>)"
  by (simp add: send_data_def world_open_def enc65 ser_write_def env_duplex_simps
      ser_in_waiting_def drain_OK print_def time_sleep_def)

lemma receive_init_duplex:
  "receive_init env_duplex
     \<lparr>is_open = True, rx_buf = [], rx_log = [[79, 75, 10]],
       tx_log = [[65], [66]], polls = 2, ticks = 0, sleeps = Suc 0,
       out = [Sending_banner, Diagnostic [79, 75], All_sent_banner]\<rparr> =
   (\<lparr>received_data = [], total_received_bytes = 0, start_receive_time = 0,
      last_activity_time = 1 / 2, last_report_time = 1, no_data = True\<rparr>,
    \<lparr>is_open = True, rx_buf = [], rx_log = [[79, 75, 10]],
       tx_log = [[65], [66]], polls = 2, ticks = 3, sleeps = Suc 0,
       out = [Sending_banner, Diagnostic [79, 75], All_sent_banner, Waiting_banner]\<rparr>)"
  by (simp add: receive_init_def time_now_def print_def env_duplex_simps)

lemma duplex_iter0:
  "receive_iter env_duplex
   (\<lparr>received_data = [], total_received_bytes = 0, start_receive_time = 0,
      last_activity_time = 1 / 2, last_report_time = 1, no_data = True\<rparr>,
    \<lparr>is_open = True, rx_buf = [], rx_log = [[79, 75, 10]],
       tx_log = [[65], [66]], polls = 2, ticks = 3, sleeps = Suc 0,
       out = [Sending_banner, Diagnostic [79, 75], All_sent_banner, Waiting_banner]\<rparr>) =
   Inr (Continue
   (\<lparr>received_data = [0x41], total_received_bytes = 0, start_receive_time = 7 / 2,
      last_activity_time = 3 / 2, last_report_time = 4, no_data = False\<rparr>,
    \<lparr>is_open = True, rx_buf = [], rx_log = [[79, 75, 10], [0x41]],
       tx_log = [[65], [66]], polls = 3, ticks = 9, sleeps = Suc 0,
       out = [Sending_banner, Diagnostic [79, 75], All_sent_banner, Waiting_banner,
              SpeedRx (8 / 3)]\<rparr>))"
  by (simp add: receive_iter_def receive_poll_def ser_in_waiting_def ser_read1_def
      receive_report_def report_speed_def py_truediv_def
      time_now_def print_def env_duplex_simps TIMEOUT_THRESHOLD_def)

text \<open>
  C8. The Receiver starts with an empty buffer and a zero counter. In every state its loop
  reaches after a completed Transmitter phase, the read log of the channel is the log
  before the session, then the reads of the Transmitter, then the reads of the Receiver;
  the Receiver's buffer is exactly the concatenation of its own reads, and its counter is
  between 0 and the length of that buffer. The bytes handed out before the session, those
  drained by the Transmitter, the Receiver's buffer and the bytes still buffered are, in
  this order, the bytes delivered to the channel: each delivered byte is in one of them
  only, so no byte drained by the Transmitter is in the Receiver's buffer or count. The
  state in which the loop exits is one of these states.
\<close>

theorem receiver_holds_only_bytes_read_after_sending:
  assumes "send_data e P w0 = Inr (sent, w1)"
  shows "received_data (fst (receive_init e w1)) = []
     \<and> total_received_bytes (fst (receive_init e w1)) = 0
     \<and> (\<exists>drained reads.
           rx_log w1 = rx_log w0 @ drained
         \<and> rx_log (snd (nth_state e k (receive_init e w1))) = rx_log w0 @ drained @ reads
         \<and> received_data (fst (nth_state e k (receive_init e w1))) = concat reads
         \<and> 0 \<le> total_received_bytes (fst (nth_state e k (receive_init e w1)))
         \<and> total_received_bytes (fst (nth_state e k (receive_init e w1)))
             \<le> int (length (concat reads))
         \<and> concat (rx_log w0) @ concat drained @ concat reads
             @ rx_buf (snd (nth_state e k (receive_init e w1)))
           = delivered w0 @ arrivals e (polls w0) (polls (snd (nth_state e k (receive_init e w1)))))
     \<and> (receive_loop e fuel (receive_init e w1) = Some (Inr s')
          \<longrightarrow> (\<exists>j. s' = nth_state e j (receive_init e w1)))"
proof (intro conjI impI)
  let ?s = "receive_init e w1"
  let ?t = "nth_state e k ?s"
  show "received_data (fst ?s) = []" "total_received_bytes (fst ?s) = 0"
    by (simp_all add: receive_init_fields)
  from fifo_send_data [OF assms] obtain drained where
    d: "rx_log w1 = rx_log w0 @ drained" and f1: "fifo e w0 w1"
    by (auto simp: fifo_def)
  have f2: "fifo e w1 (snd ?s)"
    by (rule fifo_same) (simp_all add: receive_init_fields)
  have i: "total_received_bytes (fst ?s) \<le> int (length (received_data (fst ?s)))"
      "0 \<le> total_received_bytes (fst ?s)"
    by (simp_all add: receive_init_fields)
  from nth_state_fifo [OF i, of e k] obtain reads where
    r: "rx_log (snd ?t) = rx_log (snd ?s) @ reads"
      "received_data (fst ?t) = received_data (fst ?s) @ concat reads"
      "0 \<le> total_received_bytes (fst ?t)"
      "total_received_bytes (fst ?t) \<le> int (length (received_data (fst ?t)))"
      "fifo e (snd ?s) (snd ?t)"
    by blast
  have f: "fifo e w0 (snd ?t)"
    by (rule fifo_trans [OF fifo_trans [OF f1 f2] r(5)])
  then have del: "delivered (snd ?t) = delivered w0 @ arrivals e (polls w0) (polls (snd ?t))"
    by (simp add: fifo_def)
  have log: "rx_log (snd ?t) = rx_log w0 @ drained @ reads"
    using r(1) d by (simp add: receive_init_fields)
  have rd: "received_data (fst ?t) = concat reads"
    using r(2) by (simp add: receive_init_fields)
  have "concat (rx_log w0) @ concat drained @ concat reads @ rx_buf (snd ?t)
      = delivered (snd ?t)"
    by (simp add: delivered_def log)
  with del have str: "concat (rx_log w0) @ concat drained @ concat reads @ rx_buf (snd ?t)
      = delivered w0 @ arrivals e (polls w0) (polls (snd ?t))"
    by simp
  from d log rd r(3) r(4) str
  show "\<exists>drained reads.
           rx_log w1 = rx_log w0 @ drained
         \<and> rx_log (snd ?t) = rx_log w0 @ drained @ reads
         \<and> received_data (fst ?t) = concat reads
         \<and> 0 \<le> total_received_bytes (fst ?t)
         \<and> total_received_bytes (fst ?t) \<le> int (length (concat reads))
         \<and> concat (rx_log w0) @ concat drained @ concat reads @ rx_buf (snd ?t)
           = delivered w0 @ arrivals e (polls w0) (polls (snd ?t))"
    by (intro exI [of _ drained] exI [of _ reads]) simp
next
  assume "receive_loop e fuel (receive_init e w1) = Some (Inr s')"
  then show "\<exists>j. s' = nth_state e j (receive_init e w1)"
    by (rule receive_loop_result_state)
qed


theorem receiver_holds_only_bytes_read_after_sending_witness:
  "\<exists>drained reads.
      rx_log (snd (nth_state env_duplex (Suc 0) (receive_init env_duplex
        \<lparr>is_open = True, rx_buf = [], rx_log = [[79, 75, 10]],
          tx_log = [[65], [66]], polls = 2, ticks = 0, sleeps = Suc 0,
          out = [Sending_banner, Diagnostic [79, 75], All_sent_banner]\<rparr>))) = drained @ reads
    \<and> drained = [[0x4F, 0x4B, 0x0A]] \<and> reads = [[0x41]]
    \<and> received_data (fst (nth_state env_duplex (Suc 0) (receive_init env_duplex
        \<lparr>is_open = True, rx_buf = [], rx_log = [[79, 75, 10]],
          tx_log = [[65], [66]], polls = 2, ticks = 0, sleeps = Suc 0,
          out = [Sending_banner, Diagnostic [79, 75], All_sent_banner]\<rparr>))) = [0x41]"
proof -
  let ?w1 = "\<lparr>is_open = True, rx_buf = [], rx_log = [[79, 75, 10]],
          tx_log = [[65], [66]], polls = 2, ticks = 0, sleeps = Suc 0,
          out = [Sending_banner, Diagnostic [79, 75], All_sent_banner]\<rparr>"
  let ?t = "nth_state env_duplex (Suc 0) (receive_init env_duplex ?w1)"
  have lg: "rx_log (snd ?t) = [[0x4F, 0x4B, 0x0A], [0x41]]"
    by (simp add: receive_init_duplex after_iter_def duplex_iter0)
  from receiver_holds_only_bytes_read_after_sending [OF send_data_duplex, of "Suc 0"]
  obtain drained reads where
    a: "rx_log ?w1 = rx_log world_open @ drained"
      "rx_log (snd ?t) = rx_log world_open @ drained @ reads"
      "received_data (fst ?t) = concat reads"
    by blast
  from a(1) have d: "drained = [[0x4F, 0x4B, 0x0A]]"
    by (simp add: world_open_def)
  from a(2) d lg have r: "reads = [[0x41]]"
    by (simp add: world_open_def)
  from a(2) have "rx_log (snd ?t) = drained @ reads"
    by (simp add: world_open_def)
  moreover from a(3) r have "received_data (fst ?t) = [0x41]"
    by simp
  ultimately show ?thesis
    using d r by blast
qed

end
